theory Spec2Isabelle
  imports Main "HOL-Library.Word" "HOL-Library.Sublist"
begin

section \<open>Wide strings\<close>

text \<open>
  The plugin is built for Windows: a \<^verbatim>\<open>std::wstring\<close> is a sequence of 16-bit code
  units. Literals \<^verbatim>\<open>L"..."\<close> of the source are written \<open>wstr ''...''\<close>.
\<close>

type_synonym wchar = "16 word"
type_synonym wstring = "wchar list"

definition wstr :: "string \<Rightarrow> wstring" where
  "wstr s = map of_char s"

text \<open>
  \<^verbatim>\<open>std::wstring::find(str, pos)\<close>: the least position \<open>\<ge> pos\<close> at which \<open>str\<close> occurs,
  \<^verbatim>\<open>npos\<close> (here \<open>None\<close>) when there is none or when \<open>pos\<close> is beyond the end.
\<close>

primrec first_match :: "wstring \<Rightarrow> wstring \<Rightarrow> nat option" where
  "first_match pat [] = (if pat = [] then Some 0 else None)"
| "first_match pat (x # xs) =
     (if prefix pat (x # xs) then Some 0 else map_option Suc (first_match pat xs))"

definition wstring_find :: "wstring \<Rightarrow> wstring \<Rightarrow> nat \<Rightarrow> nat option" where
  "wstring_find s pat pos =
     (if length s < pos then None
      else map_option (\<lambda>k. pos + k) (first_match pat (drop pos s)))"

text \<open>
  \<^verbatim>\<open>std::wstring::replace(pos, count, str)\<close> throws \<^verbatim>\<open>std::out_of_range\<close> when \<open>pos\<close>
  is beyond the end; otherwise the characters \<open>[pos, pos + min count (size - pos))\<close> are
  replaced by \<open>str\<close>.
\<close>

datatype error = OutOfRange

definition wstring_replace :: "wstring \<Rightarrow> nat \<Rightarrow> nat \<Rightarrow> wstring \<Rightarrow> error + wstring" where
  "wstring_replace s pos count str =
     (if length s < pos then Inl OutOfRange
      else Inr (take pos s @ str @ drop (pos + count) s))"

text \<open>\<^verbatim>\<open>std::to_wstring\<close> of a \<^verbatim>\<open>size_t\<close>: the decimal digits, most significant first.\<close>

definition digit :: "nat \<Rightarrow> wchar" where
  "digit d = of_nat (48 + d)"

fun to_wstring :: "nat \<Rightarrow> wstring" where
  "to_wstring n = (if n < 10 then [digit n] else to_wstring (n div 10) @ [digit (n mod 10)])"

declare to_wstring.simps [simp del]

section \<open>The cache key\<close>

text \<open>The unit separator \<^verbatim>\<open>L'\x1F'\<close>.\<close>

definition US :: wchar where
  "US = 0x1F"

text \<open>
  \<^verbatim>\<open>makeKey\<close>: the identifier, the separator, then each replacement followed by the
  separator, appended in the order of the vector.
\<close>

definition makeKey :: "wstring \<Rightarrow> wstring list \<Rightarrow> wstring" where
  "makeKey ident repl = fold (\<lambda>r key. key @ r @ [US]) repl (ident @ [US])"

text \<open>Neither the identifier nor any replacement holds the separator.\<close>

definition delimiter_free :: "wstring \<Rightarrow> wstring list \<Rightarrow> bool" where
  "delimiter_free ident repl \<longleftrightarrow> US \<notin> set ident \<and> (\<forall>r \<in> set repl. US \<notin> set r)"

section \<open>The find-and-replace loop\<close>

text \<open>
  The three loops of \<^verbatim>\<open>LanguageManager::get\<close> have one shape:
  \<^verbatim>\<open>for (p = result.find(ph); p != npos; p = result.find(ph, p))
     { result.replace(p, ph.size(), val); p += val.size(); }\<close>
  \<open>replace_loop ph val result p\<close> is the loop entered with the search about to start at
  \<open>p\<close> (0 on entry). The source only runs it with a nonempty \<open>ph\<close>; nothing is said about
  the empty pattern.
\<close>

function replace_loop :: "wstring \<Rightarrow> wstring \<Rightarrow> wstring \<Rightarrow> nat \<Rightarrow> error + wstring" where
  "replace_loop (c # cs) val result p =
     (case wstring_find result (c # cs) p of
        None \<Rightarrow> Inr result
      | Some q \<Rightarrow>
          (case wstring_replace result q (length (c # cs)) val of
             Inl e \<Rightarrow> Inl e
           | Inr result' \<Rightarrow> replace_loop (c # cs) val result' (q + length val)))"
| "replace_loop [] val result p = undefined"
  by pat_completeness auto

lemma first_match_bound:
  "first_match pat s = Some k \<Longrightarrow> k + length pat \<le> length s"
proof (induction s arbitrary: k)
  case Nil
  then show ?case by (simp split: if_splits)
next
  case (Cons x xs)
  then show ?case
    by (auto split: if_splits dest: prefix_length_le)
qed

lemma wstring_find_bound:
  "wstring_find s pat p = Some q \<Longrightarrow> p \<le> q \<and> q + length pat \<le> length s"
  by (auto simp: wstring_find_def split: if_splits dest!: first_match_bound)

termination replace_loop
proof (relation "measure (\<lambda>(ph, val, result, p). length result - p)")
  show "wf (measure (\<lambda>(ph, val, result, p). length result - p))"
    by simp
next
  fix c :: wchar and cs val result :: wstring and p q :: nat and result' :: wstring
  assume f: "wstring_find result (c # cs) p = Some q"
    and r: "wstring_replace result q (length (c # cs)) val = Inr result'"
  from wstring_find_bound [OF f] have b: "p \<le> q" "q + Suc (length cs) \<le> length result"
    by simp_all
  from r b have "result' = take q result @ val @ drop (q + Suc (length cs)) result"
    by (simp add: wstring_replace_def split: if_splits)
  with b have "length result' - (q + length val) < length result - p"
    by simp
  then show "((c # cs, val, result', q + length val), (c # cs, val, result, p))
      \<in> measure (\<lambda>(ph, val, result, p). length result - p)"
    by simp
qed

declare replace_loop.simps [simp del]

section \<open>The language manager\<close>

text \<open>
  \<open>table\<close> is the member \<^verbatim>\<open>_table\<close>, \<open>ini_cache\<close> the member \<^verbatim>\<open>_cache\<close> and
  \<open>lpcwCache\<close> the process-wide map that \<^verbatim>\<open>lpcwCache()\<close> returns. The class of \<^verbatim>\<open>_cache\<close>
  is declared outside this file, so its state is a type parameter and its two members
  used here, \<^verbatim>\<open>load\<close> and \<^verbatim>\<open>raw\<close>, are parameters of \<open>loadFromIni\<close>; so is the
  default-language table \<^verbatim>\<open>languageMap\<close> of \<^verbatim>\<open>language_mapping.h\<close>.
\<close>

type_synonym template_table = "wstring \<rightharpoonup> wstring"
type_synonym ini_data = "wstring \<rightharpoonup> template_table"

record 'c manager =
  table :: template_table
  ini_cache :: 'c
  lpcwCache :: "wstring \<rightharpoonup> wstring"

definition invalidateCaches :: "'c manager \<Rightarrow> 'c manager" where
  "invalidateCaches m = m\<lparr>lpcwCache := Map.empty\<rparr>"

text \<open>
  The loop \<^verbatim>\<open>for (kv : it->second) _table[kv.first] = kv.second\<close> assigns every entry of
  the language's section to the table: the table overridden by that section.
\<close>

definition loadFromIni ::
  "(wstring \<Rightarrow> 'c \<Rightarrow> bool \<times> 'c) \<Rightarrow> ('c \<Rightarrow> ini_data) \<Rightarrow> template_table \<Rightarrow>
   wstring \<Rightarrow> wstring \<Rightarrow> 'c manager \<Rightarrow> bool \<times> 'c manager" where
  "loadFromIni ini_load ini_raw languageMap iniFile languageCode m =
     (let m1 = m\<lparr>table := languageMap\<rparr>;
          (ok, c) = ini_load iniFile (ini_cache m1);
          m2 = m1\<lparr>ini_cache := c\<rparr>
      in if \<not> ok then (False, m2)
         else
           let data = ini_raw (ini_cache m2);
               m3 = (case data languageCode of
                       None \<Rightarrow> m2
                     | Some section \<Rightarrow> m2\<lparr>table := table m2 ++ section\<rparr>)
           in (True, invalidateCaches m3))"

subsection \<open>String getters\<close>

definition base :: wstring where
  "base = wstr ''$REPLACE_STRING''"

definition br :: wstring where
  "br = wstr ''<br/>''"

definition crlf :: wstring where
  "crlf = [0x0D, 0x0A]"

text \<open>
  The loop over the numbered placeholders, \<^verbatim>\<open>for (i = repl.size(); i > 0; --i)\<close>, entered
  with the counter at \<open>i\<close>; \<^verbatim>\<open>get\<close> enters it at \<open>length repl\<close>, so \<open>repl ! (i - 1)\<close> is
  always within the vector.
\<close>

fun numbered :: "nat \<Rightarrow> wstring list \<Rightarrow> wstring \<Rightarrow> error + wstring" where
  "numbered 0 repl result = Inr result"
| "numbered (Suc k) repl result =
     (case replace_loop (base @ to_wstring (Suc k)) (repl ! k) result 0 of
        Inl e \<Rightarrow> Inl e
      | Inr result' \<Rightarrow> numbered k repl result')"

text \<open>
  \<^verbatim>\<open>get\<close> looks the identifier up and, when it is there, runs the three passes over a
  copy of the template. \<open>render\<close> is that second part of its body: the line-break loop,
  the loop over the numbered placeholders, and the loop for the plain placeholder with
  \<^verbatim>\<open>repl.empty() ? std::wstring() : repl[0]\<close>.
\<close>

definition render :: "wstring \<Rightarrow> wstring list \<Rightarrow> error + wstring" where
  "render template repl =
     (case replace_loop br crlf template 0 of
        Inl e \<Rightarrow> Inl e
      | Inr r1 \<Rightarrow>
          (case numbered (length repl) repl r1 of
             Inl e \<Rightarrow> Inl e
           | Inr r2 \<Rightarrow> replace_loop base (if repl = [] then [] else repl ! 0) r2 0))"

definition get :: "'c manager \<Rightarrow> wstring \<Rightarrow> wstring list \<Rightarrow> error + wstring" where
  "get m ident repl =
     (case table m ident of
        None \<Rightarrow> Inr ident
      | Some template \<Rightarrow> render template repl)"

text \<open>
  \<^verbatim>\<open>c_str()\<close> handed out as an \<^verbatim>\<open>LPCWSTR\<close>: a pointer to a string that ends at the first
  U+0000. What the caller reads is the stored string up to its first U+0000, all of it when
  it holds none.
\<close>

definition c_str :: "wstring \<Rightarrow> wstring" where
  "c_str s = takeWhile (\<lambda>c. c \<noteq> 0) s"

text \<open>
  \<^verbatim>\<open>getLPCW\<close> stores the whole rendering in the cache and returns
  \<^verbatim>\<open>it->second.c_str()\<close>; the model returns the string the caller reads there, and the
  manager with the cache as the call leaves it.
\<close>

definition getLPCW :: "'c manager \<Rightarrow> wstring \<Rightarrow> wstring list \<Rightarrow> error + (wstring \<times> 'c manager)" where
  "getLPCW m ident repl =
     (let key = makeKey ident repl
      in case lpcwCache m key of
           Some v \<Rightarrow> Inr (c_str v, m)
         | None \<Rightarrow>
             (case get m ident repl of
                Inl e \<Rightarrow> Inl e
              | Inr v \<Rightarrow> Inr (c_str v, m\<lparr>lpcwCache := (lpcwCache m)(key \<mapsto> v)\<rparr>)))"

section \<open>Reference definitions\<close>

text \<open>
  Replacing every occurrence of a nonempty pattern in one pass from left to right: where
  the pattern starts, the value is put out and the pattern is skipped; elsewhere the
  character is copied. Nothing that was put out is looked at again.
\<close>

function spec_replace_all :: "wstring \<Rightarrow> wstring \<Rightarrow> wstring \<Rightarrow> wstring" where
  "spec_replace_all pat val [] = []"
| "spec_replace_all pat val (x # xs) =
     (if pat \<noteq> [] \<and> prefix pat (x # xs)
      then val @ spec_replace_all pat val (drop (length pat) (x # xs))
      else x # spec_replace_all pat val xs)"
  by pat_completeness auto
termination
  by (relation "measure (\<lambda>(pat, val, s). length s)") auto

text \<open>
  The numbered pass as left-to-right replacements: the indices from \<open>k\<close> down to 1, each
  over the whole result of the one before.
\<close>

fun spec_numbered :: "nat \<Rightarrow> wstring list \<Rightarrow> wstring \<Rightarrow> wstring" where
  "spec_numbered 0 repl s = s"
| "spec_numbered (Suc k) repl s =
     spec_numbered k repl (spec_replace_all (base @ to_wstring (Suc k)) (repl ! k) s)"

text \<open>
  Every entry of the cache that is stored under the key of a separator-free call holds
  what \<open>get\<close> returns for that call under the table as it is now.
\<close>

definition cache_consistent :: "'c manager \<Rightarrow> bool" where
  "cache_consistent m \<longleftrightarrow>
     (\<forall>ident repl v. delimiter_free ident repl \<longrightarrow>
        lpcwCache m (makeKey ident repl) = Some v \<longrightarrow> get m ident repl = Inr v)"

section \<open>Facts about searching and the replace loop\<close>

lemma first_match_None_iff: "first_match pat s = None \<longleftrightarrow> \<not> sublist pat s"
  by (induction s) (auto simp: sublist_Cons_right)

lemma wstring_find_None_iff:
  "p \<le> length s \<Longrightarrow> wstring_find s pat p = None \<longleftrightarrow> \<not> sublist pat (drop p s)"
  by (simp add: wstring_find_def first_match_None_iff)

lemma first_match_Some_prefix:
  "first_match pat s = Some k \<Longrightarrow> prefix pat (drop k s)"
  by (induction s arbitrary: k) (auto split: if_splits)

lemma first_match_Some_least:
  "first_match pat s = Some k \<Longrightarrow> j < k \<Longrightarrow> \<not> prefix pat (drop j s)"
proof (induction s arbitrary: k j)
  case Nil
  then show ?case by (simp split: if_splits)
next
  case (Cons x xs)
  then show ?case
    by (cases j) (auto split: if_splits)
qed

lemma replace_loop_no_match:
  assumes "\<not> sublist (c # cs) (drop p s)" "p \<le> length s"
  shows "replace_loop (c # cs) val s p = Inr s"
proof -
  from assms have "wstring_find s (c # cs) p = None"
    by (simp add: wstring_find_None_iff)
  then show ?thesis by (simp add: replace_loop.simps)
qed

lemma replace_loop_absent:
  assumes "\<not> sublist ph s" "ph \<noteq> []"
  shows "replace_loop ph val s 0 = Inr s"
proof -
  from assms(2) obtain c cs where "ph = c # cs" by (cases ph) auto
  with assms(1) show ?thesis by (simp add: replace_loop_no_match)
qed

lemma replace_loop_returns:
  "\<exists>r. replace_loop (c # cs) val s p = Inr r"
proof (induction "c # cs" val s p rule: replace_loop.induct)
  case (1 val result p)
  show ?case
  proof (cases "wstring_find result (c # cs) p")
    case None
    then show ?thesis by (simp add: replace_loop.simps)
  next
    case (Some q)
    from wstring_find_bound [OF Some] have q: "q \<le> length result" by simp
    then have r: "wstring_replace result q (length (c # cs)) val =
        Inr (take q result @ val @ drop (q + Suc (length cs)) result)"
      by (simp add: wstring_replace_def)
    from "1" [OF Some r] show ?thesis
      using Some r by (subst replace_loop.simps) simp
  qed
qed

lemma replace_loop_total:
  "ph \<noteq> [] \<Longrightarrow> \<exists>r. replace_loop ph val s p = Inr r"
  by (cases ph) (simp_all add: replace_loop_returns)

subsection \<open>The loop against the left-to-right replacement\<close>

lemma spec_replace_all_no_match:
  "first_match pat t = None \<Longrightarrow> spec_replace_all pat val t = t"
  by (induction t) (auto split: if_splits)

lemma spec_replace_all_first_match:
  "pat \<noteq> [] \<Longrightarrow> first_match pat t = Some k \<Longrightarrow>
   spec_replace_all pat val t = take k t @ val @ spec_replace_all pat val (drop (k + length pat) t)"
proof (induction t arbitrary: k)
  case Nil
  then show ?case by simp
next
  case (Cons x xs)
  show ?case
  proof (cases "prefix pat (x # xs)")
    case True
    with Cons.prems show ?thesis by simp
  next
    case False
    with Cons.prems obtain j where j: "first_match pat xs = Some j" "k = Suc j"
      by auto
    with Cons.IH [OF Cons.prems(1) j(1)] False show ?thesis by simp
  qed
qed

lemma replace_loop_spec:
  "p \<le> length s \<Longrightarrow>
   replace_loop (c # cs) val s p = Inr (take p s @ spec_replace_all (c # cs) val (drop p s))"
proof (induction "c # cs" val s p rule: replace_loop.induct)
  case (1 val result p)
  show ?case
  proof (cases "wstring_find result (c # cs) p")
    case None
    with "1.prems" have "first_match (c # cs) (drop p result) = None"
      by (simp add: wstring_find_def)
    then have "spec_replace_all (c # cs) val (drop p result) = drop p result"
      by (rule spec_replace_all_no_match)
    with None show ?thesis by (simp add: replace_loop.simps)
  next
    case (Some q)
    from wstring_find_bound [OF Some] have b: "p \<le> q" "q + Suc (length cs) \<le> length result"
      by simp_all
    define result' where "result' = take q result @ val @ drop (q + Suc (length cs)) result"
    from b have r: "wstring_replace result q (length (c # cs)) val = Inr result'"
      by (simp add: wstring_replace_def result'_def)
    from b have len: "q + length val \<le> length result'"
      by (simp add: result'_def)
    from Some "1.prems" obtain k where k: "first_match (c # cs) (drop p result) = Some k" "q = p + k"
      by (auto simp: wstring_find_def)
    have "replace_loop (c # cs) val result p = replace_loop (c # cs) val result' (q + length val)"
      using Some r by (subst replace_loop.simps) simp
    also have "\<dots> = Inr (take (q + length val) result' @
        spec_replace_all (c # cs) val (drop (q + length val) result'))"
      using "1.hyps" [OF Some r len] .
    also from b have "take (q + length val) result' = take q result @ val"
      by (simp add: result'_def)
    also from b have "drop (q + length val) result' = drop (q + Suc (length cs)) result"
      by (simp add: result'_def)
    also have "(take q result @ val) @ spec_replace_all (c # cs) val (drop (q + Suc (length cs)) result)
        = take p result @ spec_replace_all (c # cs) val (drop p result)"
    proof -
      have "spec_replace_all (c # cs) val (drop p result) =
          take k (drop p result) @ val @
          spec_replace_all (c # cs) val (drop (k + length (c # cs)) (drop p result))"
        by (rule spec_replace_all_first_match [OF _ k(1)]) simp
      moreover have "take q result = take p result @ take k (drop p result)"
        using k(2) by (simp add: take_add)
      moreover have "drop (k + length (c # cs)) (drop p result) = drop (q + Suc (length cs)) result"
        using k(2) by (simp add: add.commute add.left_commute)
      ultimately show ?thesis by simp
    qed
    finally show ?thesis .
  qed
qed

lemma spec_replace_all_prefix_back:
  "val \<noteq> [] \<Longrightarrow> set w \<inter> set val = {} \<Longrightarrow> prefix w (spec_replace_all pat val s) \<Longrightarrow>
   prefix w s"
proof (induction pat val s arbitrary: w rule: spec_replace_all.induct)
  case (1 pat val)
  then show ?case by simp
next
  case (2 pat val x xs)
  show ?case
  proof (cases w)
    case Nil
    then show ?thesis by simp
  next
    case (Cons a w')
    show ?thesis
    proof (cases "pat \<noteq> [] \<and> prefix pat (x # xs)")
      case True
      from "2.prems"(1) obtain v vs where v: "val = v # vs" by (cases val) auto
      with True "2.prems"(3) Cons have "a = v" by simp
      with "2.prems"(2) Cons v show ?thesis by simp
    next
      case False
      with "2.prems" Cons have "a = x" "prefix w' (spec_replace_all pat val xs)"
          "set w' \<inter> set val = {}"
        by auto
      with "2.IH"(2) [OF False "2.prems"(1), of w'] Cons show ?thesis by simp
    qed
  qed
qed

lemma spec_replace_all_clean:
  "pat \<noteq> [] \<Longrightarrow> val \<noteq> [] \<Longrightarrow> set pat \<inter> set val = {} \<Longrightarrow>
   \<not> sublist pat (spec_replace_all pat val s)"
proof (induction pat val s rule: spec_replace_all.induct)
  case (1 pat val)
  then show ?case by simp
next
  case (2 pat val x xs)
  show ?case
  proof (cases "pat \<noteq> [] \<and> prefix pat (x # xs)")
    case True
    let ?rest = "spec_replace_all pat val (drop (length pat) (x # xs))"
    from "2.IH"(1) [OF True "2.prems"] have ih: "\<not> sublist pat ?rest" .
    have "\<not> sublist pat (val @ ?rest)"
    proof
      assume "sublist pat (val @ ?rest)"
      then consider "sublist pat val" | "sublist pat ?rest"
        | xs1 xs2 where "pat = xs1 @ xs2" "suffix xs1 val" "prefix xs2 ?rest"
        by (auto simp: sublist_append)
      then show False
      proof cases
        case 1
        with "2.prems" show ?thesis
          by (cases pat) (auto dest!: set_mono_sublist)
      next
        case 2
        with ih show ?thesis by simp
      next
        case 3
        show ?thesis
        proof (cases xs1)
          case Nil
          with 3 ih show ?thesis by auto
        next
          case (Cons a as)
          with 3 have "a \<in> set pat" "a \<in> set val"
            by (auto dest!: set_mono_suffix)
          with "2.prems"(3) show ?thesis by auto
        qed
      qed
    qed
    moreover from True have "spec_replace_all pat val (x # xs) = val @ ?rest"
      by simp
    ultimately show ?thesis by simp
  next
    case False
    from "2.IH"(2) [OF False "2.prems"] have ih: "\<not> sublist pat (spec_replace_all pat val xs)" .
    have "\<not> prefix pat (x # spec_replace_all pat val xs)"
    proof
      assume p: "prefix pat (x # spec_replace_all pat val xs)"
      from "2.prems"(1) obtain c cs where pat: "pat = c # cs" by (cases pat) auto
      with p have "c = x" "prefix cs (spec_replace_all pat val xs)" by auto
      moreover from "2.prems"(3) pat have "set cs \<inter> set val = {}" by auto
      ultimately have "prefix cs xs"
        using spec_replace_all_prefix_back [OF "2.prems"(2)] by blast
      with \<open>c = x\<close> pat False "2.prems"(1) show False by simp
    qed
    moreover from False have "spec_replace_all pat val (x # xs) = x # spec_replace_all pat val xs"
      by auto
    ultimately show ?thesis using ih by (simp add: sublist_Cons_right)
  qed
qed

lemma spec_replace_all_self:
  "pat \<noteq> [] \<Longrightarrow> spec_replace_all pat val (pat @ rest) = val @ spec_replace_all pat val rest"
  by (cases pat) simp_all

lemma replace_loop_at_front:
  assumes "ph \<noteq> []" and "\<not> sublist ph rest"
  shows "replace_loop ph val (ph @ rest) 0 = Inr (val @ rest)"
proof -
  from assms(1) obtain c cs where ph: "ph = c # cs" by (cases ph) auto
  have "replace_loop ph val (ph @ rest) 0 = Inr (spec_replace_all ph val (ph @ rest))"
    using replace_loop_spec [of 0 "ph @ rest" c cs val] ph by simp
  also have "spec_replace_all ph val (ph @ rest) = val @ spec_replace_all ph val rest"
    using assms(1) by (rule spec_replace_all_self)
  also have "spec_replace_all ph val rest = rest"
    using assms(2) by (simp add: spec_replace_all_no_match first_match_None_iff)
  finally show ?thesis .
qed

section \<open>Facts about the placeholders\<close>

lemma base_Cons: "base @ x = 0x24 # (wstr ''REPLACE_STRING'' @ x)"
  by (simp add: base_def wstr_def)

lemma base_not_Nil: "base \<noteq> []"
  by (simp add: base_def wstr_def)

lemma br_Cons: "br = 0x3C # wstr ''br/>''"
  by (simp add: br_def wstr_def)

lemma br_absent:
  assumes "0x3C \<notin> set s"
  shows "\<not> sublist br s"
proof
  assume "sublist br s"
  then have "set br \<subseteq> set s" by (rule set_mono_sublist)
  with assms show False by (simp add: br_Cons)
qed

lemma base_absent:
  assumes "0x24 \<notin> set s"
  shows "\<not> sublist base s"
proof
  assume "sublist base s"
  then have "set base \<subseteq> set s" by (rule set_mono_sublist)
  moreover have "0x24 \<in> set base" by (simp add: base_def wstr_def)
  ultimately show False using assms by blast
qed

lemma unat_digit: "d < 10 \<Longrightarrow> unat (digit d) = 48 + d"
  by (simp only: digit_def unat_of_nat) simp

lemma to_wstring_chars: "c \<in> set (to_wstring n) \<Longrightarrow> 48 \<le> unat c \<and> unat c \<le> 57"
proof (induction n rule: to_wstring.induct)
  case (1 n)
  show ?case
  proof (cases "n < 10")
    case True
    with "1.prems" show ?thesis
      by (subst (asm) to_wstring.simps) (simp add: unat_digit)
  next
    case False
    with "1.prems" have "c \<in> set (to_wstring (n div 10)) \<or> c = digit (n mod 10)"
      by (subst (asm) to_wstring.simps) auto
    with "1.IH" False show ?thesis
      by (auto simp: unat_digit)
  qed
qed

lemma dollar_not_digit: "0x24 \<notin> set (to_wstring n)"
  using to_wstring_chars [of "0x24" n] by auto

section \<open>Facts about rendering\<close>

lemma numbered_returns: "\<exists>r. numbered k repl s = Inr r"
proof (induction k arbitrary: s)
  case 0
  show ?case by simp
next
  case (Suc k)
  have "\<exists>r. replace_loop (base @ to_wstring (Suc k)) (repl ! k) s 0 = Inr r"
    by (rule replace_loop_total) (simp add: base_not_Nil)
  then obtain r where "replace_loop (base @ to_wstring (Suc k)) (repl ! k) s 0 = Inr r" ..
  with Suc [of r] show ?case by simp
qed

lemma render_returns: "\<exists>s. render template repl = Inr s"
proof -
  have "\<exists>r1. replace_loop br crlf template 0 = Inr r1"
    by (rule replace_loop_total) (simp add: br_Cons)
  then obtain r1 where r1: "replace_loop br crlf template 0 = Inr r1" ..
  obtain r2 where r2: "numbered (length repl) repl r1 = Inr r2"
    using numbered_returns by blast
  have "\<exists>r3. replace_loop base (if repl = [] then [] else repl ! 0) r2 0 = Inr r3"
    by (rule replace_loop_total) (rule base_not_Nil)
  then obtain r3 where "replace_loop base (if repl = [] then [] else repl ! 0) r2 0 = Inr r3" ..
  with r1 r2 show ?thesis by (simp add: render_def)
qed

lemma get_returns: "\<exists>s. get m ident repl = Inr s"
  using render_returns by (cases "table m ident") (simp_all add: get_def)

lemma get_Some: "table m ident = Some template \<Longrightarrow> get m ident repl = render template repl"
  by (simp add: get_def)

lemma get_table_cong: "table m = table m' \<Longrightarrow> get m ident repl = get m' ident repl"
  by (simp add: get_def)

lemma numbered_absent:
  assumes "\<not> sublist base s"
  shows "numbered k repl s = Inr s"
proof (induction k)
  case 0
  show ?case by simp
next
  case (Suc k)
  have "\<not> sublist (base @ to_wstring (Suc k)) s"
    using assms sublist_order.order_trans [OF sublist_append_rightI] by blast
  then have "replace_loop (base @ to_wstring (Suc k)) (repl ! k) s 0 = Inr s"
    by (rule replace_loop_absent) (simp add: base_not_Nil)
  with Suc show ?case by simp
qed

lemma render_marker_free:
  assumes "\<not> sublist br template" and "\<not> sublist base template"
  shows "render template repl = Inr template"
proof -
  have "replace_loop br crlf template 0 = Inr template"
    using assms(1) by (rule replace_loop_absent) (simp add: br_Cons)
  moreover have "numbered (length repl) repl template = Inr template"
    using assms(2) by (rule numbered_absent)
  moreover have "replace_loop base (if repl = [] then [] else repl ! 0) template 0 = Inr template"
    using assms(2) by (rule replace_loop_absent) (rule base_not_Nil)
  ultimately show ?thesis
    by (simp add: render_def)
qed

section \<open>Facts about the cache\<close>

lemma fold_key_append:
  "fold (\<lambda>r key. key @ r @ [US]) repl k = k @ concat (map (\<lambda>r. r @ [US]) repl)"
  by (induction repl arbitrary: k) simp_all

lemma makeKey_concat:
  "makeKey ident repl = ident @ [US] @ concat (map (\<lambda>r. r @ [US]) repl)"
  by (simp add: makeKey_def fold_key_append)

lemma delimited_eq:
  assumes "d \<notin> set a" "d \<notin> set b" "a @ d # x = b @ d # y"
  shows "a = b \<and> x = y"
proof -
  have "takeWhile (\<lambda>c. c \<noteq> d) (a @ d # x) = a" "takeWhile (\<lambda>c. c \<noteq> d) (b @ d # y) = b"
    using assms(1,2) by (auto simp: takeWhile_tail)
  with assms(3) have "a = b" by simp
  with assms(3) show ?thesis by simp
qed

lemma delimited_concat_inj:
  assumes "\<forall>r \<in> set rs. d \<notin> set r" "\<forall>r \<in> set rs'. d \<notin> set r"
    and "concat (map (\<lambda>r. r @ [d]) rs) = concat (map (\<lambda>r. r @ [d]) rs')"
  shows "rs = rs'"
  using assms
proof (induction rs arbitrary: rs')
  case Nil
  then show ?case by (cases rs') auto
next
  case (Cons r rs)
  show ?case
  proof (cases rs')
    case Nil
    with Cons.prems show ?thesis by auto
  next
    case (Cons r' rs'')
    with Cons.prems have e: "r @ d # concat (map (\<lambda>r. r @ [d]) rs) = r' @ d # concat (map (\<lambda>r. r @ [d]) rs'')"
      by simp
    from Cons.prems Cons have "d \<notin> set r" "d \<notin> set r'" by simp_all
    from delimited_eq [OF this e] have "r = r'" "concat (map (\<lambda>r. r @ [d]) rs) = concat (map (\<lambda>r. r @ [d]) rs'')"
      by simp_all
    with Cons.IH [of rs''] Cons.prems Cons show ?thesis by simp
  qed
qed

lemma makeKey_inj:
  assumes "delimiter_free ident repl" "delimiter_free ident' repl'"
    and "makeKey ident repl = makeKey ident' repl'"
  shows "ident = ident' \<and> repl = repl'"
proof -
  from assms(3) have e: "ident @ US # concat (map (\<lambda>r. r @ [US]) repl) = ident' @ US # concat (map (\<lambda>r. r @ [US]) repl')"
    by (simp add: makeKey_concat)
  from assms(1,2) have "US \<notin> set ident" "US \<notin> set ident'"
    by (simp_all add: delimiter_free_def)
  from delimited_eq [OF this e] have i: "ident = ident'"
    and c: "concat (map (\<lambda>r. r @ [US]) repl) = concat (map (\<lambda>r. r @ [US]) repl')"
    by simp_all
  from assms(1,2) have "\<forall>r \<in> set repl. US \<notin> set r" "\<forall>r \<in> set repl'. US \<notin> set r"
    by (simp_all add: delimiter_free_def)
  from delimited_concat_inj [OF this c] i show ?thesis by simp
qed

lemma c_str_no_NUL: "0 \<notin> set s \<Longrightarrow> c_str s = s"
  by (auto simp: c_str_def)

lemma getLPCW_hit:
  "lpcwCache m (makeKey ident repl) = Some v \<Longrightarrow> getLPCW m ident repl = Inr (c_str v, m)"
  by (simp add: getLPCW_def)

lemma getLPCW_miss:
  assumes "lpcwCache m (makeKey ident repl) = None"
  shows "\<exists>v. get m ident repl = Inr v
    \<and> getLPCW m ident repl
        = Inr (c_str v, m\<lparr>lpcwCache := (lpcwCache m)(makeKey ident repl \<mapsto> v)\<rparr>)"
proof -
  from get_returns obtain v where "get m ident repl = Inr v" by blast
  with assms show ?thesis by (simp add: getLPCW_def)
qed

lemma getLPCW_again:
  assumes "getLPCW m ident repl = Inr (s, m')" and "makeKey ident' repl' = makeKey ident repl"
  shows "getLPCW m' ident' repl' = Inr (s, m')"
proof (cases "lpcwCache m (makeKey ident repl)")
  case None
  from getLPCW_miss [OF None] assms(1) obtain v
    where "s = c_str v" "m' = m\<lparr>lpcwCache := (lpcwCache m)(makeKey ident repl \<mapsto> v)\<rparr>"
    by auto
  then have "lpcwCache m' (makeKey ident' repl') = Some v" "s = c_str v"
    using assms(2) by simp_all
  then show ?thesis by (simp add: getLPCW_hit)
next
  case (Some w)
  with assms(1) have "s = c_str w" "m' = m" by (simp_all add: getLPCW_def)
  with Some assms(2) show ?thesis by (simp add: getLPCW_hit)
qed

lemma cache_consistent_store:
  assumes c: "cache_consistent m" and d: "delimiter_free ident repl"
    and g: "get m ident repl = Inr v"
  shows "cache_consistent (m\<lparr>lpcwCache := (lpcwCache m)(makeKey ident repl \<mapsto> v)\<rparr>)"
  unfolding cache_consistent_def
proof (intro allI impI)
  fix ident' repl' v'
  let ?m' = "m\<lparr>lpcwCache := (lpcwCache m)(makeKey ident repl \<mapsto> v)\<rparr>"
  assume d': "delimiter_free ident' repl'"
    and s: "lpcwCache ?m' (makeKey ident' repl') = Some v'"
  have t: "get ?m' ident' repl' = get m ident' repl'"
    by (rule get_table_cong) simp
  show "get ?m' ident' repl' = Inr v'"
  proof (cases "makeKey ident' repl' = makeKey ident repl")
    case True
    with makeKey_inj [OF d' d] have "ident' = ident" "repl' = repl" by simp_all
    moreover from True s have "v' = v" by simp
    ultimately show ?thesis using g t by simp
  next
    case False
    with s have "lpcwCache m (makeKey ident' repl') = Some v'" by simp
    with c d' have "get m ident' repl' = Inr v'"
      by (simp add: cache_consistent_def)
    with t show ?thesis by simp
  qed
qed

lemma cache_consistent_getLPCW:
  assumes c: "cache_consistent m" and d: "delimiter_free ident repl"
  shows "\<exists>v m'. get m ident repl = Inr v \<and> getLPCW m ident repl = Inr (c_str v, m')
    \<and> cache_consistent m' \<and> table m' = table m"
proof (cases "lpcwCache m (makeKey ident repl)")
  case None
  from getLPCW_miss [OF None] obtain v where v: "get m ident repl = Inr v"
    "getLPCW m ident repl
       = Inr (c_str v, m\<lparr>lpcwCache := (lpcwCache m)(makeKey ident repl \<mapsto> v)\<rparr>)"
    by blast
  from cache_consistent_store [OF c d v(1)] v show ?thesis by simp
next
  case (Some v)
  with c d have "get m ident repl = Inr v" by (simp add: cache_consistent_def)
  with getLPCW_hit [OF Some] c show ?thesis by simp
qed

lemma cache_consistent_empty: "lpcwCache m = Map.empty \<Longrightarrow> cache_consistent m"
  by (simp add: cache_consistent_def)

lemma loadFromIni_cases:
  assumes "loadFromIni ini_load ini_raw languageMap iniFile languageCode m = (ok, m')"
  shows "ok = fst (ini_load iniFile (ini_cache m))
    \<and> ini_cache m' = snd (ini_load iniFile (ini_cache m))
    \<and> lpcwCache m' = (if ok then Map.empty else lpcwCache m)
    \<and> table m' =
        (if ok then
           (case ini_raw (ini_cache m') languageCode of
              None \<Rightarrow> languageMap
            | Some section \<Rightarrow> languageMap ++ section)
         else languageMap)"
  using assms
  by (cases "ini_load iniFile (ini_cache m)")
    (auto simp: loadFromIni_def invalidateCaches_def Let_def split: option.splits if_splits)

section \<open>Facts about a template with one placeholder\<close>

lemma replace_loop_whole:
  assumes "ph \<noteq> []"
  shows "replace_loop ph val s 0 = Inr (spec_replace_all ph val s)"
proof -
  from assms obtain c cs where "ph = c # cs" by (cases ph) auto
  then show ?thesis using replace_loop_spec [of 0 s c cs val] by simp
qed

lemma numbered_spec: "numbered k repl s = Inr (spec_numbered k repl s)"
proof (induction k arbitrary: s)
  case 0
  show ?case by simp
next
  case (Suc k)
  have "replace_loop (base @ to_wstring (Suc k)) (repl ! k) s 0
      = Inr (spec_replace_all (base @ to_wstring (Suc k)) (repl ! k) s)"
    by (rule replace_loop_whole) (simp add: base_not_Nil)
  with Suc show ?case by simp
qed

lemma render_spec:
  "render template repl =
     Inr (spec_replace_all base (if repl = [] then [] else repl ! 0)
           (spec_numbered (length repl) repl (spec_replace_all br crlf template)))"
proof -
  have "br \<noteq> []" by (simp add: br_Cons)
  then show ?thesis
    by (simp add: render_def replace_loop_whole numbered_spec base_not_Nil)
qed

lemma spec_replace_all_absent:
  "\<not> sublist pat s \<Longrightarrow> spec_replace_all pat val s = s"
  by (simp add: spec_replace_all_no_match first_match_None_iff)

lemma spec_replace_all_single:
  assumes "c \<notin> set pre" and "\<not> sublist (c # cs) rest"
  shows "spec_replace_all (c # cs) val (pre @ (c # cs) @ rest) = pre @ val @ rest"
  using assms(1)
proof (induction pre)
  case Nil
  have "spec_replace_all (c # cs) val ((c # cs) @ rest) = val @ spec_replace_all (c # cs) val rest"
    by (rule spec_replace_all_self) simp
  with assms(2) show ?case by (simp add: spec_replace_all_absent)
next
  case (Cons x pre)
  then show ?case by simp
qed

lemma dollar_count_tail: "filter (\<lambda>c. c = 0x24) (wstr ''REPLACE_STRING'') = []"
  by (simp add: wstr_def)

lemma single_dollar_sublist:
  assumes "0x24 \<notin> set pre" and "0x24 \<notin> set rest"
    and "sublist (base @ x) (pre @ base @ rest)"
  shows "prefix x rest"
proof -
  from assms(3) obtain ps ss where e: "pre @ base @ rest = ps @ (base @ x) @ ss"
    by (auto simp: sublist_def)
  then have e': "pre @ 0x24 # (wstr ''REPLACE_STRING'' @ rest)
      = ps @ 0x24 # (wstr ''REPLACE_STRING'' @ x @ ss)"
    by (simp add: base_Cons)
  have "length (filter (\<lambda>c. c = 0x24) (pre @ 0x24 # (wstr ''REPLACE_STRING'' @ rest))) = 1"
    using assms(1,2) by (auto simp: dollar_count_tail filter_empty_conv)
  with e' have "length (filter (\<lambda>c. c = 0x24) (ps @ 0x24 # (wstr ''REPLACE_STRING'' @ x @ ss))) = 1"
    by simp
  then have "filter (\<lambda>c. c = 0x24) ps = []"
    by simp
  then have "0x24 \<notin> set ps"
    by (auto simp: filter_empty_conv)
  from delimited_eq [OF assms(1) this e']
  have "wstr ''REPLACE_STRING'' @ rest = wstr ''REPLACE_STRING'' @ x @ ss"
    by simp
  then show ?thesis by simp
qed

lemma numbered_no_hit:
  assumes "0x24 \<notin> set pre" and "0x24 \<notin> set rest"
    and "\<forall>j \<in> {1..k}. \<not> prefix (to_wstring j) rest"
  shows "spec_numbered k repl (pre @ base @ rest) = pre @ base @ rest"
  using assms(3)
proof (induction k)
  case 0
  show ?case by simp
next
  case (Suc k)
  from Suc.prems have "\<not> prefix (to_wstring (Suc k)) rest"
    by simp
  then have "\<not> sublist (base @ to_wstring (Suc k)) (pre @ base @ rest)"
    using single_dollar_sublist [OF assms(1,2)] by blast
  then have "spec_replace_all (base @ to_wstring (Suc k)) (repl ! k) (pre @ base @ rest)
      = pre @ base @ rest"
    by (rule spec_replace_all_absent)
  moreover from Suc.prems have "\<forall>j \<in> {1..k}. \<not> prefix (to_wstring j) rest"
    by simp
  ultimately show ?case using Suc.IH by simp
qed

lemma spec_numbered_absent:
  "\<not> sublist base s \<Longrightarrow> spec_numbered k repl s = s"
  using numbered_absent [of s k repl] by (simp add: numbered_spec)

lemma numbered_first_hit:
  assumes "0x24 \<notin> set pre" and "0x24 \<notin> set rest"
    and "0 < j" and "0x24 \<notin> set (repl ! (j - 1))"
    and "prefix (to_wstring j) rest"
  shows "j \<le> k \<Longrightarrow> \<forall>i \<in> {j<..k}. \<not> prefix (to_wstring i) rest \<Longrightarrow>
    spec_numbered k repl (pre @ base @ rest)
      = pre @ repl ! (j - 1) @ drop (length (to_wstring j)) rest"
proof (induction k)
  case 0
  with assms(3) show ?case by simp
next
  case (Suc k)
  show ?case
  proof (cases "j = Suc k")
    case True
    from assms(5) obtain rest' where r: "rest = to_wstring j @ rest'"
      by (auto simp: prefix_def)
    with assms(2) have "0x24 \<notin> set rest'" by simp
    then have "\<not> sublist (0x24 # (wstr ''REPLACE_STRING'' @ to_wstring j)) rest'"
      by (auto dest: set_mono_sublist)
    from spec_replace_all_single [OF assms(1) this, of "repl ! (j - 1)"]
    have "spec_replace_all (base @ to_wstring j) (repl ! (j - 1)) (pre @ base @ rest)
        = pre @ repl ! (j - 1) @ rest'"
      by (simp add: r base_Cons)
    moreover have "\<not> sublist base (pre @ repl ! (j - 1) @ rest')"
      by (rule base_absent) (use assms(1,4) \<open>0x24 \<notin> set rest'\<close> in simp)
    ultimately show ?thesis
      using True r by (simp add: spec_numbered_absent)
  next
    case False
    with Suc.prems have le: "j \<le> k" and no: "\<not> prefix (to_wstring (Suc k)) rest"
      and rest: "\<forall>i \<in> {j<..k}. \<not> prefix (to_wstring i) rest"
      by auto
    from no have "\<not> sublist (base @ to_wstring (Suc k)) (pre @ base @ rest)"
      using single_dollar_sublist [OF assms(1,2)] by blast
    then have "spec_replace_all (base @ to_wstring (Suc k)) (repl ! k) (pre @ base @ rest)
        = pre @ base @ rest"
      by (rule spec_replace_all_absent)
    with Suc.IH [OF le rest] show ?thesis by simp
  qed
qed

lemma bare_single:
  assumes "0x24 \<notin> set pre" and "0x24 \<notin> set rest"
  shows "spec_replace_all base val (pre @ base @ rest) = pre @ val @ rest"
proof -
  have "\<not> sublist (0x24 # wstr ''REPLACE_STRING'') rest"
    using assms(2) by (auto dest: set_mono_sublist)
  moreover have b: "base = 0x24 # wstr ''REPLACE_STRING''"
    by (simp add: base_def wstr_def)
  ultimately show ?thesis
    unfolding b using spec_replace_all_single [OF assms(1), of "wstr ''REPLACE_STRING''" rest val]
    by simp
qed

lemma render_unmatched_token:
  assumes "0x24 \<notin> set pre" and "0x24 \<notin> set post"
    and "\<not> sublist br (pre @ base @ to_wstring i @ post)"
    and "\<forall>j \<in> {1..length repl}. \<not> prefix (to_wstring j) (to_wstring i @ post)"
  shows "render (pre @ base @ to_wstring i @ post) repl
         = Inr (pre @ (if repl = [] then [] else repl ! 0) @ to_wstring i @ post)"
proof -
  have d: "0x24 \<notin> set (to_wstring i @ post)"
    using assms(2) dollar_not_digit [of i] by simp
  have "spec_replace_all br crlf (pre @ base @ to_wstring i @ post) = pre @ base @ to_wstring i @ post"
    using assms(3) by (rule spec_replace_all_absent)
  moreover have "spec_numbered (length repl) repl (pre @ base @ to_wstring i @ post)
      = pre @ base @ to_wstring i @ post"
    using numbered_no_hit [OF assms(1) d assms(4)] by simp
  moreover have "spec_replace_all base (if repl = [] then [] else repl ! 0)
      (pre @ base @ to_wstring i @ post)
      = pre @ (if repl = [] then [] else repl ! 0) @ to_wstring i @ post"
    using bare_single [OF assms(1) d] by simp
  ultimately show ?thesis
    by (simp only: render_spec)
qed

lemma render_prefix_matched_token:
  assumes "0x24 \<notin> set pre" and "0x24 \<notin> set post"
    and "\<not> sublist br (pre @ base @ to_wstring i @ post)"
    and "j \<in> {1..length repl}" and "prefix (to_wstring j) (to_wstring i @ post)"
    and "\<forall>k \<in> {j<..length repl}. \<not> prefix (to_wstring k) (to_wstring i @ post)"
    and "0x24 \<notin> set (repl ! (j - 1))"
  shows "render (pre @ base @ to_wstring i @ post) repl
         = Inr (pre @ repl ! (j - 1) @ drop (length (to_wstring j)) (to_wstring i @ post))"
proof -
  let ?out = "pre @ repl ! (j - 1) @ drop (length (to_wstring j)) (to_wstring i @ post)"
  have d: "0x24 \<notin> set (to_wstring i @ post)"
    using assms(2) dollar_not_digit [of i] by simp
  from assms(4) have j: "0 < j" "j \<le> length repl" by simp_all
  have "spec_replace_all br crlf (pre @ base @ to_wstring i @ post) = pre @ base @ to_wstring i @ post"
    using assms(3) by (rule spec_replace_all_absent)
  moreover have "spec_numbered (length repl) repl (pre @ base @ to_wstring i @ post) = ?out"
    using numbered_first_hit [OF assms(1) d j(1) assms(7,5) j(2) assms(6)] by simp
  moreover have "0x24 \<notin> set ?out"
    using assms(1,7) d by (auto dest: in_set_dropD)
  then have "spec_replace_all base (if repl = [] then [] else repl ! 0) ?out = ?out"
    by (intro spec_replace_all_absent base_absent)
  ultimately show ?thesis
    by (simp only: render_spec)
qed

section \<open>The claims\<close>

subsection \<open>C1: a numbered placeholder next to the plain one\<close>

text \<open>
  C1, as amended. With the replacements A and B, the template
  \<^verbatim>\<open>$REPLACE_STRING1$REPLACE_STRING\<close> renders to AA: the numbered pass resolves
  \<^verbatim>\<open>$REPLACE_STRING1\<close> first, with the first replacement A (index 1 is \<^verbatim>\<open>repl[0]\<close>),
  which leaves \<^verbatim>\<open>A$REPLACE_STRING\<close>; the plain placeholder is then resolved with
  the first replacement too. B belongs to \<^verbatim>\<open>$REPLACE_STRING2\<close>, which the template does
  not hold.
\<close>

theorem numbered_then_bare:
  "numbered 2 [wstr ''A'', wstr ''B''] (wstr ''$REPLACE_STRING1$REPLACE_STRING'')
     = Inr (wstr ''A$REPLACE_STRING'')
   \<and> render (wstr ''$REPLACE_STRING1$REPLACE_STRING'') [wstr ''A'', wstr ''B''] = Inr (wstr ''AA'')
   \<and> (table m ident = Some (wstr ''$REPLACE_STRING1$REPLACE_STRING'') \<longrightarrow>
        get m ident [wstr ''A'', wstr ''B''] = Inr (wstr ''AA''))"
proof -
  have "numbered 2 [wstr ''A'', wstr ''B''] (wstr ''$REPLACE_STRING1$REPLACE_STRING'')
      = Inr (wstr ''A$REPLACE_STRING'')"
    by code_simp
  moreover
  have "render (wstr ''$REPLACE_STRING1$REPLACE_STRING'') [wstr ''A'', wstr ''B''] = Inr (wstr ''AA'')"
    by code_simp
  ultimately show ?thesis by (simp add: get_Some)
qed

text \<open>
  The amended statement at a table that holds the template under \<open>msg\<close>.
\<close>

theorem numbered_then_bare_witness:
  "get \<lparr>table = [wstr ''msg'' \<mapsto> wstr ''$REPLACE_STRING1$REPLACE_STRING''], ini_cache = (),
        lpcwCache = Map.empty\<rparr> (wstr ''msg'') [wstr ''A'', wstr ''B''] = Inr (wstr ''AA'')"
  using numbered_then_bare [of "\<lparr>table = [wstr ''msg'' \<mapsto> wstr ''$REPLACE_STRING1$REPLACE_STRING''],
    ini_cache = (), lpcwCache = Map.empty\<rparr>" "wstr ''msg''"]
  by simp

text \<open>
  C1 as it was stated fails: the rendering is not BA.
\<close>

theorem numbered_then_bare_counterexample:
  "get \<lparr>table = [wstr ''msg'' \<mapsto> wstr ''$REPLACE_STRING1$REPLACE_STRING''], ini_cache = (),
        lpcwCache = Map.empty\<rparr> (wstr ''msg'') [wstr ''A'', wstr ''B''] \<noteq> Inr (wstr ''BA'')"
  by code_simp

subsection \<open>C2: a numbered placeholder beyond the replacements\<close>

text \<open>
  C2, as amended. Rendering never signals an error. A numbered placeholder whose index
  \<open>i\<close> is beyond the replacements is not resolved by its own index, and nothing shields it
  from the other passes: for every template the rendering is the left-to-right replacement
  of every \<^verbatim>\<open><br/>\<close>, then of the numbered placeholders from the last index down to 1,
  then of every \<^verbatim>\<open>$REPLACE_STRING\<close> by the first replacement (by nothing, when there is
  none), each over the whole result of the one before. So for a template that holds the
  placeholder between two texts without a dollar sign, and no \<^verbatim>\<open><br/>\<close>: when the
  digits of no index from 1 to the number of replacements are a prefix of what follows
  \<^verbatim>\<open>$REPLACE_STRING\<close>, the rendering is the template with that \<^verbatim>\<open>$REPLACE_STRING\<close>
  replaced by the first replacement (by nothing, when there is none) and the digits kept;
  and when \<open>j\<close> is the greatest index whose digits are such a prefix, and its replacement
  holds no dollar sign, the rendering is the template with \<^verbatim>\<open>$REPLACE_STRING\<close> and the
  digits of \<open>j\<close> replaced by that replacement.
\<close>

theorem unresolved_number:
  "(\<exists>s. get m ident repl = Inr s)
   \<and> (table m ident = Some template \<longrightarrow> get m ident repl = render template repl)
   \<and> render template repl =
       Inr (spec_replace_all base (if repl = [] then [] else repl ! 0)
             (spec_numbered (length repl) repl (spec_replace_all br crlf template)))
   \<and> (length repl < i \<and> 0x24 \<notin> set pre \<and> 0x24 \<notin> set post
        \<and> \<not> sublist br (pre @ base @ to_wstring i @ post)
        \<and> (\<forall>j \<in> {1..length repl}. \<not> prefix (to_wstring j) (to_wstring i @ post)) \<longrightarrow>
      render (pre @ base @ to_wstring i @ post) repl
        = Inr (pre @ (if repl = [] then [] else repl ! 0) @ to_wstring i @ post))
   \<and> (length repl < i \<and> 0x24 \<notin> set pre \<and> 0x24 \<notin> set post
        \<and> \<not> sublist br (pre @ base @ to_wstring i @ post)
        \<and> j \<in> {1..length repl} \<and> prefix (to_wstring j) (to_wstring i @ post)
        \<and> (\<forall>k \<in> {j<..length repl}. \<not> prefix (to_wstring k) (to_wstring i @ post))
        \<and> 0x24 \<notin> set (repl ! (j - 1)) \<longrightarrow>
      render (pre @ base @ to_wstring i @ post) repl
        = Inr (pre @ repl ! (j - 1) @ drop (length (to_wstring j)) (to_wstring i @ post)))"
proof (intro conjI impI)
  show "\<exists>s. get m ident repl = Inr s"
    by (rule get_returns)
  show "get m ident repl = render template repl" if "table m ident = Some template"
    using that by (rule get_Some)
  show "render template repl =
      Inr (spec_replace_all base (if repl = [] then [] else repl ! 0)
            (spec_numbered (length repl) repl (spec_replace_all br crlf template)))"
    by (rule render_spec)
  show "render (pre @ base @ to_wstring i @ post) repl
      = Inr (pre @ (if repl = [] then [] else repl ! 0) @ to_wstring i @ post)"
    if "length repl < i \<and> 0x24 \<notin> set pre \<and> 0x24 \<notin> set post
        \<and> \<not> sublist br (pre @ base @ to_wstring i @ post)
        \<and> (\<forall>j \<in> {1..length repl}. \<not> prefix (to_wstring j) (to_wstring i @ post))"
    using that by (intro render_unmatched_token) simp_all
  show "render (pre @ base @ to_wstring i @ post) repl
      = Inr (pre @ repl ! (j - 1) @ drop (length (to_wstring j)) (to_wstring i @ post))"
    if "length repl < i \<and> 0x24 \<notin> set pre \<and> 0x24 \<notin> set post
        \<and> \<not> sublist br (pre @ base @ to_wstring i @ post)
        \<and> j \<in> {1..length repl} \<and> prefix (to_wstring j) (to_wstring i @ post)
        \<and> (\<forall>k \<in> {j<..length repl}. \<not> prefix (to_wstring k) (to_wstring i @ post))
        \<and> 0x24 \<notin> set (repl ! (j - 1))"
    using that by (intro render_prefix_matched_token) simp_all
qed

text \<open>
  The amended statement for \<^verbatim>\<open>x$REPLACE_STRING5!\<close> and for \<^verbatim>\<open>$REPLACE_STRING12\<close>, each
  with the one replacement A: the renderings are xA5! and A2.
\<close>

theorem unresolved_number_witness:
  "length [wstr ''A''] < 5 \<and> 0x24 \<notin> set (wstr ''x'') \<and> 0x24 \<notin> set (wstr ''!'')
   \<and> \<not> sublist br (wstr ''x$REPLACE_STRING5!'')
   \<and> \<not> prefix (to_wstring 1) (to_wstring 5 @ wstr ''!'')
   \<and> render (wstr ''x$REPLACE_STRING5!'') [wstr ''A''] = Inr (wstr ''xA5!'')
   \<and> length [wstr ''A''] < 12 \<and> \<not> sublist br (wstr ''$REPLACE_STRING12'')
   \<and> prefix (to_wstring 1) (to_wstring 12) \<and> 0x24 \<notin> set (wstr ''A'')
   \<and> render (wstr ''$REPLACE_STRING12'') [wstr ''A''] = Inr (wstr ''A2'')"
proof -
  have t: "to_wstring 5 = wstr ''5''" "to_wstring 12 = wstr ''12''" "to_wstring 1 = wstr ''1''"
    "to_wstring (Suc 0) = wstr ''1''"
    by (simp_all add: to_wstring.simps digit_def wstr_def)
  have s: "{1..length [wstr ''A'']} = {1}" "{1<..length [wstr ''A'']} = {}"
    by auto
  have e: "wstr ''x'' @ base @ to_wstring 5 @ wstr ''!'' = wstr ''x$REPLACE_STRING5!''"
    "[] @ base @ to_wstring 12 @ [] = wstr ''$REPLACE_STRING12''"
    "base @ to_wstring 12 = wstr ''$REPLACE_STRING12''"
    by (simp_all add: t base_def wstr_def)
  have a: "\<not> sublist br (wstr ''x$REPLACE_STRING5!'')" "\<not> sublist br (wstr ''$REPLACE_STRING12'')"
    by (simp_all add: br_def wstr_def sublist_Cons_right)
  have p: "\<not> prefix (to_wstring 1) (to_wstring 5 @ wstr ''!'')"
    "prefix (to_wstring 1) (to_wstring 12)"
    "\<not> prefix (to_wstring (Suc 0)) (to_wstring 5 @ wstr ''!'')"
    "prefix (to_wstring (Suc 0)) (to_wstring 12)"
    by (simp_all add: t wstr_def)
  have d: "0x24 \<notin> set (wstr ''x'')" "0x24 \<notin> set (wstr ''!'')" "0x24 \<notin> set (wstr ''A'')"
    "0x24 \<notin> set ([] :: wstring)"
    by (simp_all add: wstr_def)
  have "render (wstr ''x'' @ base @ to_wstring 5 @ wstr ''!'') [wstr ''A'']
      = Inr (wstr ''x'' @ (if [wstr ''A''] = [] then [] else [wstr ''A''] ! 0)
              @ to_wstring 5 @ wstr ''!'')"
    by (rule unresolved_number [of "\<lparr>table = Map.empty, ini_cache = (), lpcwCache = Map.empty\<rparr>"
          "[]" "[wstr ''A'']" "[]" 5 "wstr ''x''" "wstr ''!''" 1,
          THEN conjunct2, THEN conjunct2, THEN conjunct2, THEN conjunct1, THEN mp])
      (simp add: s e a p d)
  then have one: "render (wstr ''x$REPLACE_STRING5!'') [wstr ''A''] = Inr (wstr ''xA5!'')"
    by (simp add: e) (simp add: t wstr_def)
  have "render ([] @ base @ to_wstring 12 @ []) [wstr ''A'']
      = Inr ([] @ [wstr ''A''] ! (1 - 1) @ drop (length (to_wstring 1)) (to_wstring 12 @ []))"
    by (rule unresolved_number [of "\<lparr>table = Map.empty, ini_cache = (), lpcwCache = Map.empty\<rparr>"
          "[]" "[wstr ''A'']" "[]" 12 "[]" "[]" 1,
          THEN conjunct2, THEN conjunct2, THEN conjunct2, THEN conjunct2, THEN mp])
      (simp add: s e a p d)
  then have two: "render (wstr ''$REPLACE_STRING12'') [wstr ''A''] = Inr (wstr ''A2'')"
    by (simp add: e) (simp add: t wstr_def)
  from one two a p d show ?thesis by simp
qed

text \<open>
  C2 as it was stated fails: the template holds \<^verbatim>\<open>$REPLACE_STRING5\<close>, there is one
  replacement, and the rendering A5 does not hold the placeholder any more.
\<close>

theorem unresolved_number_counterexample:
  "table \<lparr>table = [wstr ''msg'' \<mapsto> wstr ''$REPLACE_STRING5''], ini_cache = (),
        lpcwCache = Map.empty\<rparr> (wstr ''msg'') = Some (wstr ''$REPLACE_STRING5'')
   \<and> sublist (base @ to_wstring 5) (wstr ''$REPLACE_STRING5'')
   \<and> length [wstr ''A''] < 5
   \<and> get \<lparr>table = [wstr ''msg'' \<mapsto> wstr ''$REPLACE_STRING5''], ini_cache = (),
        lpcwCache = Map.empty\<rparr> (wstr ''msg'') [wstr ''A''] = Inr (wstr ''A5'')
   \<and> \<not> sublist (base @ to_wstring 5) (wstr ''A5'')"
proof -
  have "base @ to_wstring 5 = wstr ''$REPLACE_STRING5''"
    by (simp add: to_wstring.simps digit_def base_def wstr_def)
  moreover have "get \<lparr>table = [wstr ''msg'' \<mapsto> wstr ''$REPLACE_STRING5''], ini_cache = (),
        lpcwCache = Map.empty\<rparr> (wstr ''msg'') [wstr ''A''] = Inr (wstr ''A5'')"
    by code_simp
  moreover have "\<not> sublist (wstr ''$REPLACE_STRING5'') (wstr ''A5'')"
    by (simp add: wstr_def sublist_Cons_right)
  ultimately show ?thesis by simp
qed

subsection \<open>C3: loading and the render cache\<close>

text \<open>
  C3. \<open>loadFromIni\<close> empties the render cache when it returns true, so that the next
  cached call for any key finds nothing, computes the rendering and stores it. When it
  returns false the cache is as it was, while the table has been reset to the default
  table: a rendering cached before is still what the cached path returns (as always, read
  as far as its first U+0000).
\<close>

theorem load_clears_cache_on_success_only:
  assumes "loadFromIni ini_load ini_raw languageMap iniFile languageCode m = (ok, m')"
  shows "(ok \<longrightarrow> lpcwCache m' = Map.empty
            \<and> getLPCW m' ident repl =
                (case get m' ident repl of
                   Inl e \<Rightarrow> Inl e
                 | Inr v \<Rightarrow> Inr (c_str v, m'\<lparr>lpcwCache := [makeKey ident repl \<mapsto> v]\<rparr>)))
    \<and> (\<not> ok \<longrightarrow> lpcwCache m' = lpcwCache m \<and> table m' = languageMap
            \<and> (\<forall>v. lpcwCache m (makeKey ident repl) = Some v \<longrightarrow>
                  getLPCW m' ident repl = Inr (c_str v, m')))"
  using loadFromIni_cases [OF assms]
  by (auto simp: getLPCW_def split: sum.splits)

text \<open>
  A failed load over a German table leaves the cached German text in reach although the
  table is the default one again; the same load, succeeding, empties the cache.
\<close>

theorem load_clears_cache_on_success_only_witness:
  "loadFromIni (\<lambda>f c. (False, c)) (\<lambda>c. Map.empty) [wstr ''msg'' \<mapsto> wstr ''Replace'']
      (wstr ''languages.ini'') (wstr ''german'')
      \<lparr>table = [wstr ''msg'' \<mapsto> wstr ''Ersetzen''], ini_cache = (),
       lpcwCache = [makeKey (wstr ''msg'') [] \<mapsto> wstr ''Ersetzen'']\<rparr>
     = (False, \<lparr>table = [wstr ''msg'' \<mapsto> wstr ''Replace''], ini_cache = (),
                lpcwCache = [makeKey (wstr ''msg'') [] \<mapsto> wstr ''Ersetzen'']\<rparr>)
   \<and> getLPCW \<lparr>table = [wstr ''msg'' \<mapsto> wstr ''Replace''], ini_cache = (),
               lpcwCache = [makeKey (wstr ''msg'') [] \<mapsto> wstr ''Ersetzen'']\<rparr> (wstr ''msg'') []
     = Inr (wstr ''Ersetzen'',
            \<lparr>table = [wstr ''msg'' \<mapsto> wstr ''Replace''], ini_cache = (),
             lpcwCache = [makeKey (wstr ''msg'') [] \<mapsto> wstr ''Ersetzen'']\<rparr>)
   \<and> get \<lparr>table = [wstr ''msg'' \<mapsto> wstr ''Replace''], ini_cache = (),
           lpcwCache = [makeKey (wstr ''msg'') [] \<mapsto> wstr ''Ersetzen'']\<rparr> (wstr ''msg'') []
     = Inr (wstr ''Replace'')
   \<and> loadFromIni (\<lambda>f c. (True, c)) (\<lambda>c. Map.empty) [wstr ''msg'' \<mapsto> wstr ''Replace'']
      (wstr ''languages.ini'') (wstr ''german'')
      \<lparr>table = [wstr ''msg'' \<mapsto> wstr ''Ersetzen''], ini_cache = (),
       lpcwCache = [makeKey (wstr ''msg'') [] \<mapsto> wstr ''Ersetzen'']\<rparr>
     = (True, \<lparr>table = [wstr ''msg'' \<mapsto> wstr ''Replace''], ini_cache = (),
               lpcwCache = Map.empty\<rparr>)
   \<and> getLPCW \<lparr>table = [wstr ''msg'' \<mapsto> wstr ''Replace''], ini_cache = (),
               lpcwCache = Map.empty\<rparr> (wstr ''msg'') []
     = Inr (wstr ''Replace'',
            \<lparr>table = [wstr ''msg'' \<mapsto> wstr ''Replace''], ini_cache = (),
             lpcwCache = [makeKey (wstr ''msg'') [] \<mapsto> wstr ''Replace'']\<rparr>)"
proof -
  let ?m = "\<lparr>table = [wstr ''msg'' \<mapsto> wstr ''Ersetzen''], ini_cache = (),
       lpcwCache = [makeKey (wstr ''msg'') [] \<mapsto> wstr ''Ersetzen'']\<rparr>"
  let ?stale = "\<lparr>table = [wstr ''msg'' \<mapsto> wstr ''Replace''], ini_cache = (),
       lpcwCache = [makeKey (wstr ''msg'') [] \<mapsto> wstr ''Ersetzen'']\<rparr>"
  let ?fresh = "\<lparr>table = [wstr ''msg'' \<mapsto> wstr ''Replace''], ini_cache = (),
       lpcwCache = Map.empty :: wstring \<rightharpoonup> wstring\<rparr>"
  have f: "loadFromIni (\<lambda>f c. (False, c)) (\<lambda>c. Map.empty) [wstr ''msg'' \<mapsto> wstr ''Replace'']
      (wstr ''languages.ini'') (wstr ''german'') ?m = (False, ?stale)"
    by (simp add: loadFromIni_def)
  have t: "loadFromIni (\<lambda>f c. (True, c)) (\<lambda>c. Map.empty) [wstr ''msg'' \<mapsto> wstr ''Replace'']
      (wstr ''languages.ini'') (wstr ''german'') ?m = (True, ?fresh)"
    by (simp add: loadFromIni_def invalidateCaches_def)
  have g: "get ?stale (wstr ''msg'') [] = Inr (wstr ''Replace'')"
    "get ?fresh (wstr ''msg'') [] = Inr (wstr ''Replace'')"
    by code_simp+
  from load_clears_cache_on_success_only [OF f, of "wstr ''msg''" "[]"]
    load_clears_cache_on_success_only [OF t, of "wstr ''msg''" "[]"] f t g
  show ?thesis by (simp add: c_str_def wstr_def)
qed

subsection \<open>C4: the cached path\<close>

text \<open>
  C4, as amended. The cache maps a key to one rendering. A call whose key is not in the
  cache computes \<open>get\<close> and stores the result under the key; a call whose key is in the
  cache leaves the cache alone; either call returns the stored rendering as far as its
  first U+0000, so that after any call a second call with an equal key returns the same
  characters. An empty cache is consistent with the table, and from a consistent cache a
  call whose identifier and replacements are free of the separator returns what \<open>get\<close>
  returns as far as its first U+0000, which is all of it when it holds none, and keeps
  the cache consistent.
\<close>

theorem cached_render:
  "(lpcwCache m (makeKey ident repl) = None \<longrightarrow>
      (\<exists>v. get m ident repl = Inr v
        \<and> getLPCW m ident repl
            = Inr (c_str v, m\<lparr>lpcwCache := (lpcwCache m)(makeKey ident repl \<mapsto> v)\<rparr>)))
   \<and> (\<forall>v. lpcwCache m (makeKey ident repl) = Some v \<longrightarrow>
        getLPCW m ident repl = Inr (c_str v, m))
   \<and> (\<forall>s m'. getLPCW m ident repl = Inr (s, m') \<and> makeKey ident' repl' = makeKey ident repl \<longrightarrow>
        getLPCW m' ident' repl' = Inr (s, m'))
   \<and> (lpcwCache m = Map.empty \<longrightarrow> cache_consistent m)
   \<and> (cache_consistent m \<and> delimiter_free ident repl \<longrightarrow>
        (\<exists>v m'. get m ident repl = Inr v \<and> getLPCW m ident repl = Inr (c_str v, m')
           \<and> (0 \<notin> set v \<longrightarrow> getLPCW m ident repl = Inr (v, m'))
           \<and> cache_consistent m' \<and> table m' = table m))"
proof -
  have "\<exists>v m'. get m ident repl = Inr v \<and> getLPCW m ident repl = Inr (c_str v, m')
      \<and> (0 \<notin> set v \<longrightarrow> getLPCW m ident repl = Inr (v, m'))
      \<and> cache_consistent m' \<and> table m' = table m"
    if "cache_consistent m" "delimiter_free ident repl"
  proof -
    from cache_consistent_getLPCW [OF that] obtain v m'
      where "get m ident repl = Inr v" "getLPCW m ident repl = Inr (c_str v, m')"
        "cache_consistent m'" "table m' = table m"
      by blast
    then show ?thesis using c_str_no_NUL [of v] by auto
  qed
  then show ?thesis
    using getLPCW_miss [of m ident repl] getLPCW_hit [of m ident repl]
      getLPCW_again [of m ident repl _ _ ident' repl'] cache_consistent_empty [of m]
    by blast
qed

text \<open>
  The first and the second cached call for \<open>msg\<close> with the replacement 7, from the
  empty cache.
\<close>

theorem cached_render_witness:
  "lpcwCache \<lparr>table = [wstr ''msg'' \<mapsto> wstr ''Found $REPLACE_STRING''], ini_cache = (),
      lpcwCache = Map.empty\<rparr> = Map.empty
   \<and> delimiter_free (wstr ''msg'') [wstr ''7'']
   \<and> get \<lparr>table = [wstr ''msg'' \<mapsto> wstr ''Found $REPLACE_STRING''], ini_cache = (),
      lpcwCache = Map.empty\<rparr> (wstr ''msg'') [wstr ''7''] = Inr (wstr ''Found 7'')
   \<and> getLPCW \<lparr>table = [wstr ''msg'' \<mapsto> wstr ''Found $REPLACE_STRING''], ini_cache = (),
      lpcwCache = Map.empty\<rparr> (wstr ''msg'') [wstr ''7'']
     = Inr (wstr ''Found 7'',
        \<lparr>table = [wstr ''msg'' \<mapsto> wstr ''Found $REPLACE_STRING''], ini_cache = (),
         lpcwCache = [makeKey (wstr ''msg'') [wstr ''7''] \<mapsto> wstr ''Found 7'']\<rparr>)
   \<and> getLPCW \<lparr>table = [wstr ''msg'' \<mapsto> wstr ''Found $REPLACE_STRING''], ini_cache = (),
         lpcwCache = [makeKey (wstr ''msg'') [wstr ''7''] \<mapsto> wstr ''Found 7'']\<rparr>
        (wstr ''msg'') [wstr ''7'']
     = Inr (wstr ''Found 7'',
        \<lparr>table = [wstr ''msg'' \<mapsto> wstr ''Found $REPLACE_STRING''], ini_cache = (),
         lpcwCache = [makeKey (wstr ''msg'') [wstr ''7''] \<mapsto> wstr ''Found 7'']\<rparr>)"
proof -
  let ?m = "\<lparr>table = [wstr ''msg'' \<mapsto> wstr ''Found $REPLACE_STRING''], ini_cache = (),
      lpcwCache = Map.empty\<rparr>"
  have g: "get ?m (wstr ''msg'') [wstr ''7''] = Inr (wstr ''Found 7'')"
    by code_simp
  have d: "delimiter_free (wstr ''msg'') [wstr ''7'']"
    by (simp add: delimiter_free_def wstr_def US_def)
  have e: "lpcwCache ?m = Map.empty" by simp
  have n: "0 \<notin> set (wstr ''Found 7'')" "c_str (wstr ''Found 7'') = wstr ''Found 7''"
    by (simp_all add: c_str_def wstr_def)
  from cached_render [of ?m "wstr ''msg''" "[wstr ''7'']" "wstr ''msg''" "[wstr ''7'']"] e d g n
  show ?thesis by auto
qed

text \<open>
  C4 as it was stated fails: what the cached path returns is not always what \<open>get\<close>
  returns. From the empty cache, the call for the identifier a with the replacement b
  stores a rendering under the key of the identifier a, separator, b with no replacement,
  and the cached call for that identifier returns it.
\<close>

theorem cached_render_counterexample:
  "getLPCW \<lparr>table = Map.empty, ini_cache = (), lpcwCache = Map.empty\<rparr> (wstr ''a'') [wstr ''b'']
     = Inr (wstr ''a'', \<lparr>table = Map.empty, ini_cache = (),
                        lpcwCache = [makeKey (wstr ''a'') [wstr ''b''] \<mapsto> wstr ''a'']\<rparr>)
   \<and> getLPCW \<lparr>table = Map.empty, ini_cache = (),
              lpcwCache = [makeKey (wstr ''a'') [wstr ''b''] \<mapsto> wstr ''a'']\<rparr>
        (wstr ''a'' @ [US] @ wstr ''b'') []
     = Inr (wstr ''a'', \<lparr>table = Map.empty, ini_cache = (),
                        lpcwCache = [makeKey (wstr ''a'') [wstr ''b''] \<mapsto> wstr ''a'']\<rparr>)
   \<and> get \<lparr>table = Map.empty, ini_cache = (),
          lpcwCache = [makeKey (wstr ''a'') [wstr ''b''] \<mapsto> wstr ''a'']\<rparr>
        (wstr ''a'' @ [US] @ wstr ''b'') []
     = Inr (wstr ''a'' @ [US] @ wstr ''b'')
   \<and> wstr ''a'' \<noteq> wstr ''a'' @ [US] @ wstr ''b''"
  by (simp add: getLPCW_def get_def makeKey_def c_str_def wstr_def)

subsection \<open>C5: the cache key\<close>

text \<open>
  C5. For identifiers and replacement lists in which the separator U+001F does not occur,
  the key construction is injective: two pairs of identifier and list have equal keys if
  and only if the identifiers are equal and the lists are equal (same length, same
  elements, same order). In particular lists of different lengths, and the same values in
  a different order, give different keys.
\<close>

theorem makeKey_injective:
  assumes "delimiter_free ident repl" and "delimiter_free ident' repl'"
  shows "((makeKey ident repl = makeKey ident' repl') = (ident = ident' \<and> repl = repl'))
    \<and> (length repl \<noteq> length repl' \<longrightarrow> makeKey ident repl \<noteq> makeKey ident' repl')
    \<and> (repl \<noteq> repl' \<longrightarrow> makeKey ident repl \<noteq> makeKey ident' repl')"
  using makeKey_inj [OF assms] by auto

text \<open>
  The same two values in the two orders.
\<close>

theorem makeKey_injective_witness:
  "delimiter_free (wstr ''id'') [wstr ''a'', wstr ''b'']
   \<and> delimiter_free (wstr ''id'') [wstr ''b'', wstr ''a'']
   \<and> makeKey (wstr ''id'') [wstr ''a'', wstr ''b''] \<noteq> makeKey (wstr ''id'') [wstr ''b'', wstr ''a'']
   \<and> makeKey (wstr ''id'') [wstr ''a'', wstr ''b''] = wstr ''id'' @ [US] @ wstr ''a'' @ [US] @ wstr ''b'' @ [US]"
proof -
  have a: "delimiter_free (wstr ''id'') [wstr ''a'', wstr ''b'']"
    and b: "delimiter_free (wstr ''id'') [wstr ''b'', wstr ''a'']"
    by (simp_all add: delimiter_free_def wstr_def US_def)
  have "[wstr ''a'', wstr ''b''] \<noteq> [wstr ''b'', wstr ''a'']"
    by (simp add: wstr_def)
  with makeKey_injective [OF a b] a b show ?thesis
    by (simp add: makeKey_def)
qed

subsection \<open>C6: the merged table\<close>

text \<open>
  C6. After \<open>loadFromIni\<close>, whether it succeeded or not, every key of the default
  table is a key of the table. When it succeeded and the loaded data has a section for
  the language, every key of that section maps to the section's value and every other key
  maps to what the default table has for it; without such a section, and when the load
  failed, the table is the default table.
\<close>

theorem merged_table_coverage:
  assumes "loadFromIni ini_load ini_raw languageMap iniFile languageCode m = (ok, m')"
  shows "dom languageMap \<subseteq> dom (table m')
    \<and> (ok \<longrightarrow>
         (case ini_raw (ini_cache m') languageCode of
            None \<Rightarrow> table m' = languageMap
          | Some section \<Rightarrow>
              (\<forall>k v. section k = Some v \<longrightarrow> table m' k = Some v)
              \<and> (\<forall>k. section k = None \<longrightarrow> table m' k = languageMap k)))
    \<and> (\<not> ok \<longrightarrow> table m' = languageMap)"
  using loadFromIni_cases [OF assms]
  by (auto simp: map_add_def split: option.splits)

text \<open>
  A German section that overrides one of two default entries.
\<close>

theorem merged_table_coverage_witness:
  "loadFromIni (\<lambda>f c. (True, [wstr ''german'' \<mapsto> [wstr ''replace'' \<mapsto> wstr ''Ersetzen'']]))
      (\<lambda>c. c) [wstr ''replace'' \<mapsto> wstr ''Replace'', wstr ''find'' \<mapsto> wstr ''Find'']
      (wstr ''languages.ini'') (wstr ''german'')
      \<lparr>table = Map.empty, ini_cache = Map.empty, lpcwCache = Map.empty\<rparr>
     = (True, \<lparr>table = [wstr ''replace'' \<mapsto> wstr ''Replace'', wstr ''find'' \<mapsto> wstr ''Find'']
                  ++ [wstr ''replace'' \<mapsto> wstr ''Ersetzen''],
               ini_cache = [wstr ''german'' \<mapsto> [wstr ''replace'' \<mapsto> wstr ''Ersetzen'']],
               lpcwCache = Map.empty\<rparr>)
   \<and> ([wstr ''replace'' \<mapsto> wstr ''Replace'', wstr ''find'' \<mapsto> wstr ''Find'']
         ++ [wstr ''replace'' \<mapsto> wstr ''Ersetzen'']) (wstr ''replace'') = Some (wstr ''Ersetzen'')
   \<and> ([wstr ''replace'' \<mapsto> wstr ''Replace'', wstr ''find'' \<mapsto> wstr ''Find'']
         ++ [wstr ''replace'' \<mapsto> wstr ''Ersetzen'']) (wstr ''find'') = Some (wstr ''Find'')"
proof -
  have l: "loadFromIni (\<lambda>f c. (True, [wstr ''german'' \<mapsto> [wstr ''replace'' \<mapsto> wstr ''Ersetzen'']]))
      (\<lambda>c. c) [wstr ''replace'' \<mapsto> wstr ''Replace'', wstr ''find'' \<mapsto> wstr ''Find'']
      (wstr ''languages.ini'') (wstr ''german'')
      \<lparr>table = Map.empty, ini_cache = Map.empty, lpcwCache = Map.empty\<rparr>
     = (True, \<lparr>table = [wstr ''replace'' \<mapsto> wstr ''Replace'', wstr ''find'' \<mapsto> wstr ''Find'']
                  ++ [wstr ''replace'' \<mapsto> wstr ''Ersetzen''],
               ini_cache = [wstr ''german'' \<mapsto> [wstr ''replace'' \<mapsto> wstr ''Ersetzen'']],
               lpcwCache = Map.empty\<rparr>)"
    by (simp add: loadFromIni_def invalidateCaches_def)
  have k: "[wstr ''replace'' \<mapsto> wstr ''Ersetzen''] (wstr ''find'') = None"
    "[wstr ''replace'' \<mapsto> wstr ''Ersetzen''] (wstr ''replace'') = Some (wstr ''Ersetzen'')"
    by (simp_all add: wstr_def)
  from merged_table_coverage [OF l] l k show ?thesis
    by (simp add: wstr_def)
qed

subsection \<open>C7: the index 10 before the index 1\<close>

text \<open>
  C7, as amended. With ten replacements, the pass for the index 10 comes first and
  replaces the whole template \<^verbatim>\<open>$REPLACE_STRING10\<close> by the tenth replacement, so
  \<^verbatim>\<open>$REPLACE_STRING1\<close> is never matched inside the template with a 0 left behind. The
  passes for the indices 9 down to 1 and for the plain placeholder then run over that
  replacement: the rendering is what they make of it, and it is the tenth replacement when
  that holds no \<^verbatim>\<open>$REPLACE_STRING\<close>.
\<close>

theorem descending_order:
  assumes "length vs = 10"
  shows "replace_loop (base @ to_wstring 10) (vs ! 9) (wstr ''$REPLACE_STRING10'') 0 = Inr (vs ! 9)
    \<and> render (wstr ''$REPLACE_STRING10'') vs =
        (case numbered 9 vs (vs ! 9) of
           Inl e \<Rightarrow> Inl e
         | Inr r \<Rightarrow> replace_loop base (vs ! 0) r 0)
    \<and> (\<not> sublist base (vs ! 9) \<longrightarrow> render (wstr ''$REPLACE_STRING10'') vs = Inr (vs ! 9))
    \<and> (table m ident = Some (wstr ''$REPLACE_STRING10'') \<and> \<not> sublist base (vs ! 9) \<longrightarrow>
         get m ident vs = Inr (vs ! 9))"
proof -
  have t: "wstr ''$REPLACE_STRING10'' = base @ to_wstring 10"
    by (simp add: to_wstring.simps digit_def base_def wstr_def)
  have a: "replace_loop (base @ to_wstring 10) (vs ! 9) (wstr ''$REPLACE_STRING10'') 0 = Inr (vs ! 9)"
    using replace_loop_at_front [of "base @ to_wstring 10" "[]" "vs ! 9"]
    by (simp add: t base_not_Nil)
  have "\<not> sublist br (wstr ''$REPLACE_STRING10'')"
    by (rule br_absent) (simp add: wstr_def)
  then have b: "replace_loop br crlf (wstr ''$REPLACE_STRING10'') 0 = Inr (wstr ''$REPLACE_STRING10'')"
    by (rule replace_loop_absent) (simp add: br_Cons)
  have n: "numbered (length vs) vs (wstr ''$REPLACE_STRING10'') = numbered 9 vs (vs ! 9)"
    using a assms by (simp add: numeral_eq_Suc)
  from assms have "vs \<noteq> []" by auto
  with b n have r: "render (wstr ''$REPLACE_STRING10'') vs =
      (case numbered 9 vs (vs ! 9) of Inl e \<Rightarrow> Inl e | Inr r \<Rightarrow> replace_loop base (vs ! 0) r 0)"
    by (simp add: render_def)
  have c: "render (wstr ''$REPLACE_STRING10'') vs = Inr (vs ! 9)" if "\<not> sublist base (vs ! 9)"
    using that r by (simp add: numbered_absent replace_loop_absent base_not_Nil)
  from a r c show ?thesis by (simp add: get_Some)
qed

text \<open>
  Ten one-letter replacements: the rendering is the tenth, not the first followed by 0.
\<close>

theorem descending_order_witness:
  "length [wstr ''a'', wstr ''b'', wstr ''c'', wstr ''d'', wstr ''e'', wstr ''f'', wstr ''g'',
           wstr ''h'', wstr ''i'', wstr ''j''] = 10
   \<and> \<not> sublist base (wstr ''j'')
   \<and> get \<lparr>table = [wstr ''msg'' \<mapsto> wstr ''$REPLACE_STRING10''], ini_cache = (),
           lpcwCache = Map.empty\<rparr> (wstr ''msg'')
        [wstr ''a'', wstr ''b'', wstr ''c'', wstr ''d'', wstr ''e'', wstr ''f'', wstr ''g'',
         wstr ''h'', wstr ''i'', wstr ''j''] = Inr (wstr ''j'')
   \<and> wstr ''j'' \<noteq> wstr ''a0''"
  using descending_order [of "[wstr ''a'', wstr ''b'', wstr ''c'', wstr ''d'', wstr ''e'',
      wstr ''f'', wstr ''g'', wstr ''h'', wstr ''i'', wstr ''j'']"
    "\<lparr>table = [wstr ''msg'' \<mapsto> wstr ''$REPLACE_STRING10''], ini_cache = (),
      lpcwCache = Map.empty\<rparr>" "wstr ''msg''"]
  by (simp add: base_def wstr_def sublist_Cons_right)

text \<open>
  C7 as it was stated fails: when the tenth replacement is \<^verbatim>\<open>$REPLACE_STRING10\<close> itself,
  the pass for the index 1 matches inside it and the rendering is the first replacement
  followed by 0, not the tenth replacement.
\<close>

theorem descending_order_counterexample:
  "length [wstr ''a'', wstr ''b'', wstr ''c'', wstr ''d'', wstr ''e'', wstr ''f'', wstr ''g'',
           wstr ''h'', wstr ''i'', wstr ''$REPLACE_STRING10''] = 10
   \<and> get \<lparr>table = [wstr ''msg'' \<mapsto> wstr ''$REPLACE_STRING10''], ini_cache = (),
           lpcwCache = Map.empty\<rparr> (wstr ''msg'')
        [wstr ''a'', wstr ''b'', wstr ''c'', wstr ''d'', wstr ''e'', wstr ''f'', wstr ''g'',
         wstr ''h'', wstr ''i'', wstr ''$REPLACE_STRING10''] = Inr (wstr ''a0'')
   \<and> wstr ''a0'' \<noteq> wstr ''$REPLACE_STRING10''"
proof -
  have "get \<lparr>table = [wstr ''msg'' \<mapsto> wstr ''$REPLACE_STRING10''], ini_cache = (),
           lpcwCache = Map.empty\<rparr> (wstr ''msg'')
        [wstr ''a'', wstr ''b'', wstr ''c'', wstr ''d'', wstr ''e'', wstr ''f'', wstr ''g'',
         wstr ''h'', wstr ''i'', wstr ''$REPLACE_STRING10''] = Inr (wstr ''a0'')"
    by code_simp
  then show ?thesis by (simp add: wstr_def)
qed

subsection \<open>C8: an identifier that is not in the table\<close>

text \<open>
  C8. For an identifier that the table does not hold, \<open>get\<close> returns the identifier
  itself, whatever the replacements are; and for every table, identifier and replacement
  list \<open>get\<close> returns a string and no error.
\<close>

theorem missing_identifier:
  "(table m ident = None \<longrightarrow> get m ident repl = Inr ident) \<and> (\<exists>s. get m ident repl = Inr s)"
  using get_returns [of m ident repl] by (simp add: get_def)

text \<open>
  An identifier missing from a table of one entry.
\<close>

theorem missing_identifier_witness:
  "table \<lparr>table = [wstr ''msg'' \<mapsto> wstr ''text''], ini_cache = (), lpcwCache = Map.empty\<rparr>
     (wstr ''other'') = None
   \<and> get \<lparr>table = [wstr ''msg'' \<mapsto> wstr ''text''], ini_cache = (), lpcwCache = Map.empty\<rparr>
     (wstr ''other'') [wstr ''x''] = Inr (wstr ''other'')"
  using missing_identifier [of "\<lparr>table = [wstr ''msg'' \<mapsto> wstr ''text''], ini_cache = (),
    lpcwCache = Map.empty\<rparr>" "wstr ''other''" "[wstr ''x'']"]
  by (simp add: wstr_def)

subsection \<open>C9: the line-break pass\<close>

text \<open>
  C9. The line-break loop computes the left-to-right replacement of every
  \<^verbatim>\<open><br/>\<close> by carriage return and line feed, in which nothing inserted is scanned
  again, and no \<^verbatim>\<open><br/>\<close> is left in its result. When that result holds no
  \<^verbatim>\<open>$REPLACE_STRING\<close>, it is the rendering; in particular \<^verbatim>\<open>a<br/>b\<close> with no
  replacements renders to a, carriage return, line feed, b.
\<close>

theorem line_break_pass:
  "replace_loop br crlf template 0 = Inr (spec_replace_all br crlf template)
   \<and> \<not> sublist br (spec_replace_all br crlf template)
   \<and> (\<not> sublist base (spec_replace_all br crlf template) \<longrightarrow>
        render template repl = Inr (spec_replace_all br crlf template))
   \<and> render (wstr ''a<br/>b'') [] = Inr (wstr ''a'' @ crlf @ wstr ''b'')
   \<and> (table m ident = Some (wstr ''a<br/>b'') \<longrightarrow>
        get m ident [] = Inr (wstr ''a'' @ crlf @ wstr ''b''))"
proof -
  have a: "replace_loop br crlf template 0 = Inr (spec_replace_all br crlf template)" for template
    using replace_loop_spec [of 0 template "0x3C" "wstr ''br/>''" crlf]
    by (simp add: br_Cons)
  have b: "\<not> sublist br (spec_replace_all br crlf template)"
    by (rule spec_replace_all_clean) (simp_all add: br_def crlf_def wstr_def)
  have c: "render template repl = Inr (spec_replace_all br crlf template)"
    if "\<not> sublist base (spec_replace_all br crlf template)" for template repl
    using that by (simp add: render_def a numbered_absent replace_loop_absent base_not_Nil)
  have "spec_replace_all br crlf (wstr ''a<br/>b'') = wstr ''a'' @ crlf @ wstr ''b''"
    by (simp add: br_def wstr_def)
  moreover have "\<not> sublist base (wstr ''a'' @ crlf @ wstr ''b'')"
    by (simp add: base_def crlf_def wstr_def sublist_Cons_right)
  ultimately have d: "render (wstr ''a<br/>b'') [] = Inr (wstr ''a'' @ crlf @ wstr ''b'')"
    using c [of "wstr ''a<br/>b''" "[]"] by simp
  from a b c d show ?thesis by (simp add: get_Some)
qed

text \<open>
  The example through \<open>get\<close>, and a template with two markers in a row.
\<close>

theorem line_break_pass_witness:
  "table \<lparr>table = [wstr ''msg'' \<mapsto> wstr ''a<br/>b''], ini_cache = (), lpcwCache = Map.empty\<rparr>
     (wstr ''msg'') = Some (wstr ''a<br/>b'')
   \<and> get \<lparr>table = [wstr ''msg'' \<mapsto> wstr ''a<br/>b''], ini_cache = (), lpcwCache = Map.empty\<rparr>
     (wstr ''msg'') [] = Inr [0x61, 0x0D, 0x0A, 0x62]
   \<and> \<not> sublist base (spec_replace_all br crlf (wstr ''x<br/><br/>y''))
   \<and> render (wstr ''x<br/><br/>y'') [wstr ''v''] = Inr [0x78, 0x0D, 0x0A, 0x0D, 0x0A, 0x79]"
  using line_break_pass [of "wstr ''x<br/><br/>y''" "[wstr ''v'']"
    "\<lparr>table = [wstr ''msg'' \<mapsto> wstr ''a<br/>b''], ini_cache = (), lpcwCache = Map.empty\<rparr>"
    "wstr ''msg''"]
  by (simp add: br_def base_def crlf_def wstr_def sublist_Cons_right)

subsection \<open>C10: a template without placeholders\<close>

text \<open>
  C10. A template that holds neither \<^verbatim>\<open><br/>\<close> nor \<^verbatim>\<open>$REPLACE_STRING\<close> is
  rendered unchanged, whatever the replacements are.
\<close>

theorem no_placeholder:
  assumes "\<not> sublist br template" and "\<not> sublist base template"
  shows "render template repl = Inr template
    \<and> (table m ident = Some template \<longrightarrow> get m ident repl = Inr template)"
  using render_marker_free [OF assms] by (simp add: get_Some)

text \<open>
  A template with a lone dollar sign and an unclosed tag.
\<close>

theorem no_placeholder_witness:
  "\<not> sublist br (wstr ''Replace $REPLACE all <br>'')
   \<and> \<not> sublist base (wstr ''Replace $REPLACE all <br>'')
   \<and> get \<lparr>table = [wstr ''msg'' \<mapsto> wstr ''Replace $REPLACE all <br>''], ini_cache = (),
        lpcwCache = Map.empty\<rparr> (wstr ''msg'') [wstr ''x'', wstr ''y'']
      = Inr (wstr ''Replace $REPLACE all <br>'')"
proof -
  have a: "\<not> sublist br (wstr ''Replace $REPLACE all <br>'')"
    and b: "\<not> sublist base (wstr ''Replace $REPLACE all <br>'')"
    by (simp_all add: br_def base_def wstr_def sublist_Cons_right)
  from no_placeholder [OF a b, of "[wstr ''x'', wstr ''y'']"
    "\<lparr>table = [wstr ''msg'' \<mapsto> wstr ''Replace $REPLACE all <br>''], ini_cache = (),
      lpcwCache = Map.empty\<rparr>" "wstr ''msg''"] a b
  show ?thesis by simp
qed

end
